theory Spec2Isabelle
  imports Main
begin

section \<open>Data model\<close>

text \<open>
  The aggregator (\<^verbatim>\<open>aggregator/src/main.py\<close>) receives events over HTTP, pushes them on the
  Redis list \<^verbatim>\<open>event_queue\<close>, and five consumer tasks pop them and insert them into the
  Postgres table \<^verbatim>\<open>events\<close>. The payload of an event is a JSON object that the program
  never inspects.
\<close>

datatype json =
    JNull
  | JBool bool
  | JNumber int
  | JString string
  | JArray "json list"
  | JObject "(string \<times> json) list"

text \<open>\<^verbatim>\<open>class LogEvent(BaseModel)\<close>: five required fields, four of them strings.\<close>

record LogEvent =
  topic :: string
  event_id :: string
  timestamp :: string
  source :: string
  payload :: json

text \<open>
  A naive date-time (\<^verbatim>\<open>datetime\<close> with \<^verbatim>\<open>tzinfo=None\<close>, column type \<^verbatim>\<open>TIMESTAMP\<close>) is
  represented by an integer, in chronological order.
\<close>

type_synonym datetime = int

text \<open>
  A row of the table \<^verbatim>\<open>events\<close>, with the five columns the program writes and reads. The
  columns \<^verbatim>\<open>id\<close> and \<^verbatim>\<open>received_at\<close> are assigned by the store and never read.
\<close>

record row =
  col_topic :: string
  col_event_id :: string
  col_timestamp :: datetime
  col_source :: string
  col_payload :: json

text \<open>The three lines the consumer writes to its logger.\<close>

datatype log_line =
    Processed string
  | Duplicate_dropped string
  | DB_Error

text \<open>
  The state of the running process and of its two collaborators: the Redis list, the table,
  the dictionary \<^verbatim>\<open>stats\<close> (three counters), the logger output, and the two places where a
  task is suspended with data in hand: \<open>holding\<close> has one slot per consumer task, filled
  between that task's \<^verbatim>\<open>blpop\<close> and its insert; \<open>uncounted\<close> has one entry per request
  handler whose \<^verbatim>\<open>await pipe.execute()\<close> has completed and whose next statement,
  \<^verbatim>\<open>stats["received"] += len(events_to_process)\<close>, has not run yet.
\<close>

record state =
  queue :: "LogEvent list"
  events :: "row list"
  received :: int
  processed_success :: int
  duplicates_dropped :: int
  logged :: "log_line list"
  holding :: "LogEvent option list"
  uncounted :: "int list"

text \<open>Process start: counters at zero, five consumer tasks, nothing queued or stored.\<close>

definition startup :: state where
  "startup =
     \<lparr>queue = [], events = [], received = 0, processed_success = 0, duplicates_dropped = 0,
      logged = [], holding = replicate 5 None, uncounted = []\<rparr>"

section \<open>The durable store\<close>

text \<open>\<^verbatim>\<open>CONSTRAINT unique_event_id UNIQUE (topic, event_id)\<close>: the conflict target.\<close>

definition conflict :: "row list \<Rightarrow> string \<Rightarrow> string \<Rightarrow> bool" where
  "conflict rows t e = (\<exists>r \<in> set rows. col_topic r = t \<and> col_event_id r = e)"

text \<open>
  \<^verbatim>\<open>INSERT INTO events (...) VALUES (...) ON CONFLICT (topic, event_id) DO NOTHING\<close>,
  with the command tag that \<^verbatim>\<open>conn.execute\<close> returns.
\<close>

definition insert_on_conflict_do_nothing :: "row list \<Rightarrow> row \<Rightarrow> string \<times> row list" where
  "insert_on_conflict_do_nothing rows r =
     (if conflict rows (col_topic r) (col_event_id r)
      then (''INSERT 0 0'', rows)
      else (''INSERT 0 1'', rows @ [r]))"

section \<open>The consumer\<close>

text \<open>
  Lines 70 to 95 of \<^verbatim>\<open>start_consumer\<close>, for one message. \<open>fromisoformat\<close> stands for
  \<^verbatim>\<open>datetime.fromisoformat(...).replace(tzinfo=None)\<close>, \<open>None\<close> where it raises
  \<^verbatim>\<open>ValueError\<close>; \<open>db_error\<close> says whether \<^verbatim>\<open>conn.execute\<close> raises. Either exception is
  caught by \<^verbatim>\<open>except Exception\<close> on line 94, which only logs. The transaction holds this one
  statement: it leaves the table as it was when the statement raised, and its commit is
  taken to succeed otherwise.
\<close>

definition process_message ::
  "(string \<Rightarrow> datetime option) \<Rightarrow> bool \<Rightarrow> LogEvent \<Rightarrow> state \<Rightarrow> state" where
  "process_message fromisoformat db_error event_data s =
     (case fromisoformat (timestamp event_data) of
        None \<Rightarrow> s\<lparr>logged := logged s @ [DB_Error]\<rparr>
      | Some ts_val \<Rightarrow>
          if db_error then s\<lparr>logged := logged s @ [DB_Error]\<rparr>
          else
            (case insert_on_conflict_do_nothing (events s)
                    \<lparr>col_topic = topic event_data, col_event_id = event_id event_data,
                     col_timestamp = ts_val, col_source = source event_data,
                     col_payload = payload event_data\<rparr> of
               (result, rows) \<Rightarrow>
                 if result = ''INSERT 0 1''
                 then s\<lparr>events := rows,
                        processed_success := processed_success s + 1,
                        logged := logged s @ [Processed (event_id event_data)]\<rparr>
                 else s\<lparr>events := rows,
                        duplicates_dropped := duplicates_dropped s + 1,
                        logged := logged s @ [Duplicate_dropped (event_id event_data)]\<rparr>))"


text \<open>
  The store serialises the insert transactions of the consumers. \<open>process_all\<close> runs them
  in the order of the list; each message comes with the answer to "does the store raise".
\<close>

fun process_all ::
  "(string \<Rightarrow> datetime option) \<Rightarrow> (LogEvent \<times> bool) list \<Rightarrow> state \<Rightarrow> state" where
  "process_all fromisoformat [] s = s"
| "process_all fromisoformat ((event_data, db_error) # ms) s =
     process_all fromisoformat ms (process_message fromisoformat db_error event_data s)"

section \<open>The ingestion gate\<close>

text \<open>\<^verbatim>\<open>event: Union[LogEvent, List[LogEvent]]\<close>, after validation by the framework.\<close>

datatype body =
    Single LogEvent
  | Batch "LogEvent list"

definition events_to_process :: "body \<Rightarrow> LogEvent list" where
  "events_to_process event = (case event of Single e \<Rightarrow> [e] | Batch es \<Rightarrow> es)"

text \<open>
  What the handler answers: the dictionary \<^verbatim>\<open>{"status": ..., "count": ...}\<close>, sent with
  status 200, or \<^verbatim>\<open>HTTPException(status_code=...)\<close>.
\<close>

datatype response =
    OK_200 string int
  | HTTPException nat

text \<open>
  \<^verbatim>\<open>await pipe.execute()\<close> with the buffered \<^verbatim>\<open>rpush\<close> commands: the messages are
  appended to the tail of the list in order, or the call raises and nothing is appended
  (\<open>delivered\<close> is the queue's answer). A message is the JSON text of the event; the
  consumer's \<^verbatim>\<open>json.loads\<close> gives the fields back, so the list holds the events.
\<close>

definition pipe_execute :: "bool \<Rightarrow> LogEvent list \<Rightarrow> LogEvent list \<Rightarrow> LogEvent list option" where
  "pipe_execute delivered es q = (if delivered then Some (q @ es) else None)"

text \<open>Line 144, for a request of \<open>n\<close> events.\<close>

definition count_received :: "int \<Rightarrow> state \<Rightarrow> state" where
  "count_received n s = s\<lparr>received := received s + n\<rparr>"

text \<open>\<^verbatim>\<open>publish_event\<close>, run without interruption.\<close>

definition publish_event :: "bool \<Rightarrow> body \<Rightarrow> state \<Rightarrow> response \<times> state" where
  "publish_event delivered event s =
     (case pipe_execute delivered (events_to_process event) (queue s) of
        None \<Rightarrow> (HTTPException 500, s)
      | Some q \<Rightarrow>
          (OK_200 ''queued'' (int (length (events_to_process event))),
           count_received (int (length (events_to_process event))) (s\<lparr>queue := q\<rparr>)))"

section \<open>Interleaving of the tasks\<close>

text \<open>
  All tasks run on one event loop, so a task runs without interruption from one
  \<^verbatim>\<open>await\<close> that suspends it to the next. An action is one such stretch:
  \<^item> \<open>Execute event delivered\<close>: a request handler runs to \<^verbatim>\<open>await pipe.execute()\<close>
    (line 142) and the queue applies the push or fails;
  \<^item> \<open>Count i\<close>: the suspended handler number \<open>i\<close> resumes and runs line 144;
  \<^item> \<open>Blpop w\<close>: \<^verbatim>\<open>blpop\<close> of consumer \<open>w\<close> returns (line 65);
  \<^item> \<open>Insert w db_error\<close>: consumer \<open>w\<close> runs lines 70 to 95 on the message it holds.
  A step is \<open>None\<close> when the action cannot happen in that state.
\<close>

datatype action =
    Execute body bool
  | Count nat
  | Blpop nat
  | Insert nat bool

fun step :: "(string \<Rightarrow> datetime option) \<Rightarrow> action \<Rightarrow> state \<Rightarrow> state option" where
  "step fromisoformat (Execute event delivered) s =
     (case pipe_execute delivered (events_to_process event) (queue s) of
        None \<Rightarrow> Some s
      | Some q \<Rightarrow>
          Some (s\<lparr>queue := q,
                  uncounted := uncounted s @ [int (length (events_to_process event))]\<rparr>))"
| "step fromisoformat (Count i) s =
     (if i < length (uncounted s)
      then Some (count_received (uncounted s ! i)
                   (s\<lparr>uncounted := take i (uncounted s) @ drop (Suc i) (uncounted s)\<rparr>))
      else None)"
| "step fromisoformat (Blpop w) s =
     (if w < length (holding s) \<and> holding s ! w = None
      then (case queue s of
              [] \<Rightarrow> Some s
            | msg # rest \<Rightarrow> Some (s\<lparr>queue := rest, holding := (holding s)[w := Some msg]\<rparr>))
      else None)"
| "step fromisoformat (Insert w db_error) s =
     (if w < length (holding s)
      then (case holding s ! w of
              None \<Rightarrow> None
            | Some msg \<Rightarrow>
                Some (process_message fromisoformat db_error msg
                        (s\<lparr>holding := (holding s)[w := None]\<rparr>)))
      else None)"

fun run :: "(string \<Rightarrow> datetime option) \<Rightarrow> action list \<Rightarrow> state \<Rightarrow> state option" where
  "run fromisoformat [] s = Some s"
| "run fromisoformat (a # as) s =
     (case step fromisoformat a s of
        None \<Rightarrow> None
      | Some s' \<Rightarrow> run fromisoformat as s')"

subsection \<open>Accounting over a run\<close>

text \<open>The consumers that hold a message, and the error lines logged so far.\<close>

definition in_flight :: "state \<Rightarrow> nat" where
  "in_flight s = length (filter (\<lambda>h. h \<noteq> None) (holding s))"

definition errors_logged :: "state \<Rightarrow> nat" where
  "errors_logged s = length (filter (\<lambda>l. l = DB_Error) (logged s))"

text \<open>
  The messages that the \<open>Insert\<close> actions of a run process, in the order of the run, each
  with the store's answer.
\<close>

fun inserts ::
  "(string \<Rightarrow> datetime option) \<Rightarrow> action list \<Rightarrow> state \<Rightarrow> (LogEvent \<times> bool) list" where
  "inserts fromisoformat [] s = []"
| "inserts fromisoformat (a # as) s =
     (case step fromisoformat a s of
        None \<Rightarrow> []
      | Some s' \<Rightarrow>
          (case a of
             Insert w db_error \<Rightarrow>
               (case holding s ! w of
                  None \<Rightarrow> []
                | Some msg \<Rightarrow> [(msg, db_error)])
           | _ \<Rightarrow> [])
          @ inserts fromisoformat as s')"

section \<open>The query surface\<close>

text \<open>
  \<^verbatim>\<open>get_events\<close>: the filter is added under \<^verbatim>\<open>if topic:\<close>, which is false for
  \<^verbatim>\<open>None\<close> and for the empty string. Rows with equal timestamps come in the order of
  insertion here; the store may return them in any order.
\<close>

definition get_events :: "string option \<Rightarrow> row list \<Rightarrow> row list" where
  "get_events topic' rows =
     take 50 (sort_key (\<lambda>r. - col_timestamp r)
       (case topic' of
          None \<Rightarrow> rows
        | Some t \<Rightarrow> if t = [] then rows else filter (\<lambda>r. col_topic r = t) rows))"

subsection \<open>Uptime\<close>

text \<open>The conversions \<^verbatim>\<open>%d\<close> and \<^verbatim>\<open>%02d\<close> of Python's string formatting.\<close>

definition digit_char :: "nat \<Rightarrow> char" where
  "digit_char d = ''0123456789'' ! d"

fun decimal :: "nat \<Rightarrow> string" where
  "decimal n = (if n < 10 then [digit_char n] else decimal (n div 10) @ [digit_char (n mod 10)])"

definition format_d :: "int \<Rightarrow> string" where
  "format_d n = (if n < 0 then CHR ''-'' # decimal (nat (- n)) else decimal (nat n))"

definition format_02d :: "int \<Rightarrow> string" where
  "format_02d n = (if 0 \<le> n \<and> n < 10 then CHR ''0'' # format_d n else format_d n)"

text \<open>
  \<^verbatim>\<open>timedelta.__str__\<close> of the standard library, for a value with no microseconds:
  \<^verbatim>\<open>"%d:%02d:%02d" % (hh, mm, ss)\<close>, preceded by \<^verbatim>\<open>"%d day%s, "\<close> when the number of
  days is not zero.
\<close>

definition timedelta_str :: "int \<Rightarrow> int \<Rightarrow> string" where
  "timedelta_str days seconds =
     (let mm = seconds div 60; ss = seconds mod 60; hh = mm div 60; mm' = mm mod 60;
          s = format_d hh @ [CHR '':''] @ format_02d mm' @ [CHR '':''] @ format_02d ss
      in if days \<noteq> 0
         then format_d days @ '' day'' @ (if \<bar>days\<bar> \<noteq> 1 then ''s'' else []) @ '', '' @ s
         else s)"

text \<open>
  \<^verbatim>\<open>str(timedelta(seconds=uptime_seconds))\<close>: the constructor splits the seconds into
  days and seconds of the day, and raises \<^verbatim>\<open>OverflowError\<close> beyond 999999999 days.
\<close>

definition uptime_str :: "int \<Rightarrow> string option" where
  "uptime_str uptime_seconds =
     (let days = uptime_seconds div 86400; seconds = uptime_seconds mod 86400
      in if \<bar>days\<bar> > 999999999 then None else Some (timedelta_str days seconds))"

text \<open>The body of \<^verbatim>\<open>GET /stats\<close>.\<close>

record stats_body =
  stats_received :: int
  unique_processed :: int
  duplicate_dropped :: int
  topics :: "string list"
  uptime :: string

text \<open>
  \<^verbatim>\<open>get_stats\<close>; \<open>uptime_seconds\<close> is \<^verbatim>\<open>int(time.time() - start_time)\<close>, and the topics
  are the result of \<^verbatim>\<open>SELECT DISTINCT topic FROM events\<close>.
\<close>

definition get_stats :: "int \<Rightarrow> state \<Rightarrow> stats_body option" where
  "get_stats uptime_seconds s =
     (case uptime_str uptime_seconds of
        None \<Rightarrow> None
      | Some uptime_str' \<Rightarrow>
          Some \<lparr>stats_received = received s,
                unique_processed = processed_success s,
                duplicate_dropped = duplicates_dropped s,
                topics = remdups (map col_topic (events s)),
                uptime = uptime_str'\<rparr>)"

text \<open>
  The shape \<^verbatim>\<open>H:MM:SS\<close> of the specification: three fields separated by colons, all
  digits, at least one for the hours and exactly two for the minutes and for the seconds.
\<close>

fun split_colon :: "string \<Rightarrow> string list" where
  "split_colon [] = [[]]"
| "split_colon (c # cs) =
     (if c = CHR '':'' then [] # split_colon cs
      else (case split_colon cs of
              [] \<Rightarrow> [[c]]
            | f # fs \<Rightarrow> (c # f) # fs))"

definition all_digits :: "string \<Rightarrow> bool" where
  "all_digits f = list_all (\<lambda>c. c \<in> set ''0123456789'') f"

definition h_mm_ss :: "string \<Rightarrow> bool" where
  "h_mm_ss s =
     (case split_colon s of
        [h, m, c] \<Rightarrow>
          h \<noteq> [] \<and> all_digits h \<and> length m = 2 \<and> all_digits m \<and> length c = 2 \<and> all_digits c
      | _ \<Rightarrow> False)"

section \<open>Process initialisation\<close>

text \<open>
  What one pass of the \<^verbatim>\<open>try\<close> block of \<^verbatim>\<open>lifespan\<close> (lines 107 to 111) can do:
  \<^verbatim>\<open>create_pool\<close> raises; or the pool is assigned and \<^verbatim>\<open>redis.from_url\<close> raises; or both
  handles are assigned and \<^verbatim>\<open>init_db\<close> raises; or all three succeed.
\<close>

datatype attempt =
    Pool_error
  | Broker_error
  | Init_db_error
  | Connected

text \<open>
  The globals \<^verbatim>\<open>db_pool\<close> and \<^verbatim>\<open>redis_client\<close> (a handle is named by the pass that
  created it), the number of \<^verbatim>\<open>asyncio.sleep(2)\<close> calls made, the number of consumer tasks
  created, and whether \<^verbatim>\<open>yield\<close> was reached, from where the application serves requests.
\<close>

record app =
  db_pool :: "nat option"
  redis_client :: "nat option"
  sleeps :: nat
  consumers :: nat
  serving :: bool

text \<open>\<^verbatim>\<open>for i in range(5)\<close>: \<open>n\<close> passes are left, the next one is pass \<open>i\<close>.\<close>

fun connect :: "(nat \<Rightarrow> attempt) \<Rightarrow> nat \<Rightarrow> nat \<Rightarrow> app \<Rightarrow> app" where
  "connect env 0 i a = a"
| "connect env (Suc n) i a =
     (case env i of
        Pool_error \<Rightarrow> connect env n (Suc i) (a\<lparr>sleeps := sleeps a + 1\<rparr>)
      | Broker_error \<Rightarrow> connect env n (Suc i) (a\<lparr>db_pool := Some i, sleeps := sleeps a + 1\<rparr>)
      | Init_db_error \<Rightarrow>
          connect env n (Suc i)
            (a\<lparr>db_pool := Some i, redis_client := Some i, sleeps := sleeps a + 1\<rparr>)
      | Connected \<Rightarrow> a\<lparr>db_pool := Some i, redis_client := Some i\<rparr>)"

text \<open>\<^verbatim>\<open>lifespan\<close> up to its \<^verbatim>\<open>yield\<close>: the loop, then the five consumer tasks.\<close>

definition lifespan_startup :: "(nat \<Rightarrow> attempt) \<Rightarrow> app" where
  "lifespan_startup env =
     (connect env 5 0
        \<lparr>db_pool = None, redis_client = None, sleeps = 0, consumers = 0, serving = False\<rparr>)
     \<lparr>consumers := 5, serving := True\<rparr>"

section \<open>A date-time parser for concrete instances\<close>

text \<open>
  \<open>fromisoformat\<close> is a parameter of the consumer. For concrete runs it is instantiated
  with a parser of the one format \<^verbatim>\<open>YYYY-MM-DDTHH:MM:SS\<close>, which
  \<^verbatim>\<open>datetime.fromisoformat\<close> accepts in every version of Python that has it; a string
  with no digit in it is rejected by both.
\<close>

definition digit_value :: "char \<Rightarrow> int option" where
  "digit_value c =
     map_of [(CHR ''0'', 0), (CHR ''1'', 1), (CHR ''2'', 2), (CHR ''3'', 3), (CHR ''4'', 4),
             (CHR ''5'', 5), (CHR ''6'', 6), (CHR ''7'', 7), (CHR ''8'', 8), (CHR ''9'', 9)] c"

fun number_from :: "int \<Rightarrow> string \<Rightarrow> int option" where
  "number_from n [] = Some n"
| "number_from n (c # cs) =
     (case digit_value c of
        None \<Rightarrow> None
      | Some d \<Rightarrow> number_from (10 * n + d) cs)"

definition days_in_month :: "int \<Rightarrow> int \<Rightarrow> int" where
  "days_in_month y m =
     (if m = 2 then (if y mod 4 = 0 \<and> (y mod 100 \<noteq> 0 \<or> y mod 400 = 0) then 29 else 28)
      else if m = 4 \<or> m = 6 \<or> m = 9 \<or> m = 11 then 30 else 31)"

definition iso_seconds :: "string \<Rightarrow> datetime option" where
  "iso_seconds s =
     (if length s = 19 \<and> s ! 4 = CHR ''-'' \<and> s ! 7 = CHR ''-'' \<and> s ! 10 = CHR ''T''
         \<and> s ! 13 = CHR '':'' \<and> s ! 16 = CHR '':''
      then
        (case (number_from 0 (take 4 s), number_from 0 (take 2 (drop 5 s)),
               number_from 0 (take 2 (drop 8 s)), number_from 0 (take 2 (drop 11 s)),
               number_from 0 (take 2 (drop 14 s)), number_from 0 (take 2 (drop 17 s))) of
           (Some y, Some m, Some d, Some hh, Some mm, Some ss) \<Rightarrow>
             if 1 \<le> y \<and> 1 \<le> m \<and> m \<le> 12 \<and> 1 \<le> d \<and> d \<le> days_in_month y m
                \<and> hh < 24 \<and> mm < 60 \<and> ss < 60
             then Some (((((y * 12 + (m - 1)) * 31 + (d - 1)) * 24 + hh) * 60 + mm) * 60 + ss)
             else None
         | _ \<Rightarrow> None)
      else None)"

section \<open>Concrete events and rows\<close>

text \<open>Two events with the same \<^verbatim>\<open>event_id\<close> on two topics, and one with a bad timestamp.\<close>

definition event_t_a :: LogEvent where
  "event_t_a =
     \<lparr>topic = ''t'', event_id = ''a'', timestamp = ''2024-01-01T00:00:00'', source = ''s'',
      payload = JObject []\<rparr>"

definition event_u_a :: LogEvent where
  "event_u_a =
     \<lparr>topic = ''u'', event_id = ''a'', timestamp = ''2024-01-01T00:00:00'', source = ''s'',
      payload = JObject []\<rparr>"

definition event_bad :: LogEvent where
  "event_bad =
     \<lparr>topic = ''t'', event_id = ''b'', timestamp = ''yesterday'', source = ''s'',
      payload = JObject []\<rparr>"

text \<open>
  The pair of the bad event with a good timestamp, and the event id of the bad event on
  another topic, again with the bad timestamp.
\<close>

definition event_t_b :: LogEvent where
  "event_t_b =
     \<lparr>topic = ''t'', event_id = ''b'', timestamp = ''2024-01-01T00:00:00'', source = ''s'',
      payload = JObject []\<rparr>"

definition event_bad_u :: LogEvent where
  "event_bad_u =
     \<lparr>topic = ''u'', event_id = ''b'', timestamp = ''yesterday'', source = ''s'',
      payload = JObject []\<rparr>"

text \<open>The rows that the events with a good timestamp are stored as.\<close>

definition row_t_a :: row where
  "row_t_a =
     \<lparr>col_topic = ''t'', col_event_id = ''a'', col_timestamp = 65052979200, col_source = ''s'',
      col_payload = JObject []\<rparr>"

definition row_u_a :: row where
  "row_u_a =
     \<lparr>col_topic = ''u'', col_event_id = ''a'', col_timestamp = 65052979200, col_source = ''s'',
      col_payload = JObject []\<rparr>"

definition row_t_b :: row where
  "row_t_b =
     \<lparr>col_topic = ''t'', col_event_id = ''b'', col_timestamp = 65052979200, col_source = ''s'',
      col_payload = JObject []\<rparr>"

section \<open>Evaluation lemmas\<close>

declare decimal.simps [simp del]

lemma iso_seconds_midnight: "iso_seconds ''2024-01-01T00:00:00'' = Some 65052979200"
  by (simp add: iso_seconds_def digit_value_def days_in_month_def)

lemma iso_seconds_yesterday: "iso_seconds ''yesterday'' = None"
  by (simp add: iso_seconds_def)

lemma decimal_digit: "n < 10 \<Longrightarrow> decimal n = [digit_char n]"
  by (subst decimal.simps) simp

lemma format_d_small: "0 \<le> n \<Longrightarrow> n < 10 \<Longrightarrow> format_d n = [digit_char (nat n)]"
  by (simp add: format_d_def decimal_digit)

section \<open>The consumer and its runs\<close>

subsection \<open>One message\<close>

lemma process_message_error:
  "fromisoformat (timestamp ev) = None \<or> db_error \<Longrightarrow>
     process_message fromisoformat db_error ev s = s\<lparr>logged := logged s @ [DB_Error]\<rparr>"
  by (auto simp: process_message_def split: option.splits)

lemma process_message_new:
  "fromisoformat (timestamp ev) = Some ts \<Longrightarrow> \<not> conflict (events s) (topic ev) (event_id ev) \<Longrightarrow>
     process_message fromisoformat False ev s =
       s\<lparr>events := events s @ [\<lparr>col_topic = topic ev, col_event_id = event_id ev,
                                  col_timestamp = ts, col_source = source ev,
                                  col_payload = payload ev\<rparr>],
         processed_success := processed_success s + 1,
         logged := logged s @ [Processed (event_id ev)]\<rparr>"
  by (simp add: process_message_def insert_on_conflict_do_nothing_def)

lemma process_message_duplicate:
  "fromisoformat (timestamp ev) = Some ts \<Longrightarrow> conflict (events s) (topic ev) (event_id ev) \<Longrightarrow>
     process_message fromisoformat False ev s =
       s\<lparr>duplicates_dropped := duplicates_dropped s + 1,
         logged := logged s @ [Duplicate_dropped (event_id ev)]\<rparr>"
  by (simp add: process_message_def insert_on_conflict_do_nothing_def)

lemma conflict_append:
  "conflict (rows @ [r]) t e \<longleftrightarrow> conflict rows t e \<or> (col_topic r = t \<and> col_event_id r = e)"
  by (auto simp: conflict_def)

lemma conflict_filter_other:
  "\<not> (t' = t \<and> e' = e) \<Longrightarrow>
     conflict (filter (\<lambda>r. \<not> (col_topic r = t \<and> col_event_id r = e)) rows) t' e'
       = conflict rows t' e'"
  by (auto simp: conflict_def)

lemma no_conflict_no_rows:
  "\<not> conflict rows t e \<Longrightarrow> filter (\<lambda>r. col_topic r = t \<and> col_event_id r = e) rows = []"
  by (auto simp: conflict_def filter_empty_conv)

text \<open>A message of another pair does the same to two stores that differ in rows of the pair.\<close>

lemma process_message_other:
  assumes other: "\<not> (topic ev = t \<and> event_id ev = e)"
    and rel: "events b = filter (\<lambda>r. \<not> (col_topic r = t \<and> col_event_id r = e)) (events a)"
  shows "events (process_message P f ev b)
           = filter (\<lambda>r. \<not> (col_topic r = t \<and> col_event_id r = e)) (events (process_message P f ev a))
       \<and> processed_success (process_message P f ev a) - processed_success (process_message P f ev b)
           = processed_success a - processed_success b
       \<and> duplicates_dropped (process_message P f ev a) - duplicates_dropped (process_message P f ev b)
           = duplicates_dropped a - duplicates_dropped b
       \<and> conflict (events (process_message P f ev a)) t e = conflict (events a) t e
       \<and> filter (\<lambda>r. col_topic r = t \<and> col_event_id r = e) (events (process_message P f ev a))
           = filter (\<lambda>r. col_topic r = t \<and> col_event_id r = e) (events a)"
proof (cases "P (timestamp ev) = None \<or> f")
  case True
  then show ?thesis using rel by (simp add: process_message_error)
next
  case False
  then obtain ts where ts: "P (timestamp ev) = Some ts" and f: "\<not> f" by auto
  have same: "conflict (events b) (topic ev) (event_id ev) = conflict (events a) (topic ev) (event_id ev)"
    using other rel conflict_filter_other [of "topic ev" t "event_id ev" e "events a"] by simp
  show ?thesis
  proof (cases "conflict (events a) (topic ev) (event_id ev)")
    case True
    then show ?thesis using ts f same rel by (simp add: process_message_duplicate)
  next
    case False
    then show ?thesis using ts f same rel other
      by (auto simp: process_message_new conflict_append)
  qed
qed

subsection \<open>The attempts on one pair among other messages\<close>

lemma attempts_among_others:
  assumes "\<forall>(ev, db_error) \<in> set ms.
             topic ev = t \<and> event_id ev = e \<longrightarrow> P (timestamp ev) \<noteq> None \<and> \<not> db_error"
    and "events b = filter (\<lambda>r. \<not> (col_topic r = t \<and> col_event_id r = e)) (events a)"
  shows "processed_success (process_all P ms a)
           - processed_success
               (process_all P (filter (\<lambda>(ev, db_error). \<not> (topic ev = t \<and> event_id ev = e)) ms) b)
           = processed_success a - processed_success b
             + (if conflict (events a) t e
                   \<or> filter (\<lambda>(ev, db_error). topic ev = t \<and> event_id ev = e) ms = []
                then 0 else 1)
       \<and> duplicates_dropped (process_all P ms a)
           - duplicates_dropped
               (process_all P (filter (\<lambda>(ev, db_error). \<not> (topic ev = t \<and> event_id ev = e)) ms) b)
           = duplicates_dropped a - duplicates_dropped b
             + (if conflict (events a) t e
                then int (length (filter (\<lambda>(ev, db_error). topic ev = t \<and> event_id ev = e) ms))
                else if filter (\<lambda>(ev, db_error). topic ev = t \<and> event_id ev = e) ms = [] then 0
                else int (length (filter (\<lambda>(ev, db_error). topic ev = t \<and> event_id ev = e) ms)) - 1)
       \<and> length (filter (\<lambda>r. col_topic r = t \<and> col_event_id r = e) (events (process_all P ms a)))
           = (if conflict (events a) t e
                   \<or> filter (\<lambda>(ev, db_error). topic ev = t \<and> event_id ev = e) ms = []
              then length (filter (\<lambda>r. col_topic r = t \<and> col_event_id r = e) (events a))
              else 1)"
  using assms
proof (induction ms arbitrary: a b)
  case Nil
  then show ?case by simp
next
  case (Cons m ms)
  obtain ev f where m: "m = (ev, f)" by (cases m)
  have rest: "\<forall>(ev, db_error) \<in> set ms.
             topic ev = t \<and> event_id ev = e \<longrightarrow> P (timestamp ev) \<noteq> None \<and> \<not> db_error"
    using Cons.prems(1) by simp
  show ?case
  proof (cases "topic ev = t \<and> event_id ev = e")
    case False
    let ?a = "process_message P f ev a" and ?b = "process_message P f ev b"
    note step = process_message_other [OF False Cons.prems(2), of P f]
    have rel: "events ?b = filter (\<lambda>r. \<not> (col_topic r = t \<and> col_event_id r = e)) (events ?a)"
      using step by simp
    have l: "process_all P (m # ms) a = process_all P ms ?a" by (simp add: m)
    have r: "process_all P (filter (\<lambda>(ev, db_error). \<not> (topic ev = t \<and> event_id ev = e)) (m # ms)) b
               = process_all P (filter (\<lambda>(ev, db_error). \<not> (topic ev = t \<and> event_id ev = e)) ms) ?b"
      using False by (simp add: m)
    have k: "filter (\<lambda>(ev, db_error). topic ev = t \<and> event_id ev = e) (m # ms)
               = filter (\<lambda>(ev, db_error). topic ev = t \<and> event_id ev = e) ms"
      using False by (simp add: m)
    have ps: "processed_success ?a - processed_success ?b = processed_success a - processed_success b"
      and dd: "duplicates_dropped ?a - duplicates_dropped ?b
                 = duplicates_dropped a - duplicates_dropped b"
      and cf: "conflict (events ?a) t e = conflict (events a) t e"
      and fl: "filter (\<lambda>r. col_topic r = t \<and> col_event_id r = e) (events ?a)
                 = filter (\<lambda>r. col_topic r = t \<and> col_event_id r = e) (events a)"
      using step by simp_all
    show ?thesis unfolding l r k using Cons.IH [OF rest rel] unfolding ps dd cf fl .
  next
    case True
    then obtain ts where ts: "P (timestamp ev) = Some ts" and f: "\<not> f"
      using Cons.prems(1) m by auto
    let ?a = "process_message P False ev a"
    show ?thesis
    proof (cases "conflict (events a) t e")
      case c: True
      have a': "?a = a\<lparr>duplicates_dropped := duplicates_dropped a + 1,
                       logged := logged a @ [Duplicate_dropped (event_id ev)]\<rparr>"
        using c True ts by (simp add: process_message_duplicate)
      have rel: "events b = filter (\<lambda>r. \<not> (col_topic r = t \<and> col_event_id r = e)) (events ?a)"
        using Cons.prems(2) a' by simp
      show ?thesis using Cons.IH [OF rest rel] True c f a' by (simp add: m)
    next
      case c: False
      have a': "?a = a\<lparr>events := events a @ [\<lparr>col_topic = topic ev, col_event_id = event_id ev,
                                  col_timestamp = ts, col_source = source ev,
                                  col_payload = payload ev\<rparr>],
                       processed_success := processed_success a + 1,
                       logged := logged a @ [Processed (event_id ev)]\<rparr>"
        using c True ts by (simp add: process_message_new)
      have rel: "events b = filter (\<lambda>r. \<not> (col_topic r = t \<and> col_event_id r = e)) (events ?a)"
        using Cons.prems(2) a' True by simp
      have now: "conflict (events ?a) t e" using a' True by (simp add: conflict_append)
      have none: "filter (\<lambda>r. col_topic r = t \<and> col_event_id r = e) (events a) = []"
        using c by (rule no_conflict_no_rows)
      show ?thesis using Cons.IH [OF rest rel] True c f a' now none by (simp add: m)
    qed
  qed
qed

subsection \<open>A run is a sequence of inserts\<close>

lemma process_message_store:
  assumes "events a = events b" and "processed_success a = processed_success b"
    and "duplicates_dropped a = duplicates_dropped b"
  shows "events (process_message P f msg a) = events (process_message P f msg b)
       \<and> processed_success (process_message P f msg a) = processed_success (process_message P f msg b)
       \<and> duplicates_dropped (process_message P f msg a) = duplicates_dropped (process_message P f msg b)"
  using assms
  by (simp add: process_message_def insert_on_conflict_do_nothing_def split: option.splits)

lemma process_all_store:
  assumes "events a = events b" and "processed_success a = processed_success b"
    and "duplicates_dropped a = duplicates_dropped b"
  shows "events (process_all P ms a) = events (process_all P ms b)
       \<and> processed_success (process_all P ms a) = processed_success (process_all P ms b)
       \<and> duplicates_dropped (process_all P ms a) = duplicates_dropped (process_all P ms b)"
  using assms
proof (induction ms arbitrary: a b)
  case Nil
  then show ?case by simp
next
  case (Cons m ms)
  obtain msg f where m: "m = (msg, f)" by (cases m)
  note one = process_message_store [OF Cons.prems, of P f msg]
  show ?case using Cons.IH [of "process_message P f msg a" "process_message P f msg b"] one
    by (simp add: m)
qed

text \<open>
  Whatever the interleaving, the table and the two counters of the consumers end as if the
  messages had been inserted one after the other, in the order of the \<open>Insert\<close> actions.
\<close>

lemma run_serialises:
  assumes "run P as s = Some s'"
  shows "events s' = events (process_all P (inserts P as s) s)
       \<and> processed_success s' = processed_success (process_all P (inserts P as s) s)
       \<and> duplicates_dropped s' = duplicates_dropped (process_all P (inserts P as s) s)"
  using assms
proof (induction as arbitrary: s)
  case Nil
  then show ?case by simp
next
  case (Cons a as)
  then obtain s1 where s1: "step P a s = Some s1" and rest: "run P as s1 = Some s'"
    by (auto split: option.splits)
  note IH = Cons.IH [OF rest]
  show ?case
  proof (cases a)
    case (Insert w db_error)
    then have w: "w < length (holding s)" using s1 by (simp split: if_splits)
    then obtain msg where msg: "holding s ! w = Some msg"
      using s1 Insert by (cases "holding s ! w") simp_all
    have s1': "s1 = process_message P db_error msg (s\<lparr>holding := (holding s)[w := None]\<rparr>)"
      using s1 Insert w msg by simp
    have ins: "inserts P (a # as) s = (msg, db_error) # inserts P as s1"
      using s1 Insert msg by simp
    have "events s1 = events (process_message P db_error msg s)
        \<and> processed_success s1 = processed_success (process_message P db_error msg s)
        \<and> duplicates_dropped s1 = duplicates_dropped (process_message P db_error msg s)"
      unfolding s1' by (rule process_message_store) simp_all
    then show ?thesis
      unfolding ins
      using IH process_all_store [of s1 "process_message P db_error msg s" P "inserts P as s1"]
      by simp
  next
    case (Execute event delivered)
    then have same: "events s1 = events s" "processed_success s1 = processed_success s"
        "duplicates_dropped s1 = duplicates_dropped s"
      using s1 by (auto simp: pipe_execute_def split: if_splits)
    have ins: "inserts P (a # as) s = inserts P as s1" using s1 Execute by simp
    show ?thesis unfolding ins using IH process_all_store [OF same, of P "inserts P as s1"] by simp
  next
    case (Count i)
    then have same: "events s1 = events s" "processed_success s1 = processed_success s"
        "duplicates_dropped s1 = duplicates_dropped s"
      using s1 by (auto simp: count_received_def split: if_splits)
    have ins: "inserts P (a # as) s = inserts P as s1" using s1 Count by simp
    show ?thesis unfolding ins using IH process_all_store [OF same, of P "inserts P as s1"] by simp
  next
    case (Blpop w)
    then have same: "events s1 = events s" "processed_success s1 = processed_success s"
        "duplicates_dropped s1 = duplicates_dropped s"
      using s1 by (auto split: if_splits list.splits)
    have ins: "inserts P (a # as) s = inserts P as s1" using s1 Blpop by simp
    show ?thesis unfolding ins using IH process_all_store [OF same, of P "inserts P as s1"] by simp
  qed
qed

subsection \<open>The counters along a run\<close>

lemma sum_list_without:
  fixes u :: "int list"
  assumes "i < length u"
  shows "sum_list (take i u @ drop (Suc i) u) = sum_list u - u ! i"
proof -
  have "u = take i u @ u ! i # drop (Suc i) u" using assms by (rule id_take_nth_drop)
  then have "sum_list u = sum_list (take i u @ u ! i # drop (Suc i) u)" by simp
  then show ?thesis by simp
qed

lemma filter_update_in:
  assumes "w < length xs" and "\<not> Q (xs ! w)" and "Q x"
  shows "length (filter Q (xs[w := x])) = Suc (length (filter Q xs))"
proof -
  have a: "xs[w := x] = take w xs @ x # drop (Suc w) xs" using assms(1) by (rule upd_conv_take_nth_drop)
  have "xs = take w xs @ xs ! w # drop (Suc w) xs" using assms(1) by (rule id_take_nth_drop)
  then have "filter Q xs = filter Q (take w xs @ xs ! w # drop (Suc w) xs)" by simp
  then have b: "length (filter Q xs) = length (filter Q (take w xs)) + length (filter Q (drop (Suc w) xs))"
    using assms(2) by simp
  show ?thesis unfolding a using b assms(3) by simp
qed

lemma filter_update_out:
  assumes "w < length xs" and "Q (xs ! w)" and "\<not> Q x"
  shows "Suc (length (filter Q (xs[w := x]))) = length (filter Q xs)"
proof -
  have a: "xs[w := x] = take w xs @ x # drop (Suc w) xs" using assms(1) by (rule upd_conv_take_nth_drop)
  have "xs = take w xs @ xs ! w # drop (Suc w) xs" using assms(1) by (rule id_take_nth_drop)
  then have "filter Q xs = filter Q (take w xs @ xs ! w # drop (Suc w) xs)" by simp
  then have b: "length (filter Q xs) = Suc (length (filter Q (take w xs)) + length (filter Q (drop (Suc w) xs)))"
    using assms(2) by simp
  show ?thesis unfolding a using b assms(3) by simp
qed

lemma process_message_accounts:
  "processed_success (process_message P f msg s) + duplicates_dropped (process_message P f msg s)
     + int (errors_logged (process_message P f msg s))
     = processed_success s + duplicates_dropped s + int (errors_logged s) + 1
   \<and> received (process_message P f msg s) = received s
   \<and> queue (process_message P f msg s) = queue s
   \<and> holding (process_message P f msg s) = holding s
   \<and> uncounted (process_message P f msg s) = uncounted s
   \<and> errors_logged s \<le> errors_logged (process_message P f msg s)"
  by (simp add: process_message_def insert_on_conflict_do_nothing_def errors_logged_def
      split: option.splits)

text \<open>
  Every event pushed is in exactly one place: counted or waiting to be counted on the left;
  stored, dropped as a duplicate, dropped on an error, queued or held by a consumer on the
  right.
\<close>

lemma step_balance:
  assumes "step P a s = Some s'"
    and "received s + sum_list (uncounted s)
           = processed_success s + duplicates_dropped s + int (errors_logged s)
             + int (length (queue s)) + int (in_flight s)"
  shows "received s' + sum_list (uncounted s')
           = processed_success s' + duplicates_dropped s' + int (errors_logged s')
             + int (length (queue s')) + int (in_flight s')"
proof (cases a)
  case (Execute event delivered)
  then show ?thesis using assms
    by (auto simp: pipe_execute_def in_flight_def errors_logged_def split: if_splits)
next
  case (Count i)
  then have i: "i < length (uncounted s)" using assms(1) by (simp split: if_splits)
  then have s': "s' = count_received (uncounted s ! i)
                   (s\<lparr>uncounted := take i (uncounted s) @ drop (Suc i) (uncounted s)\<rparr>)"
    using assms(1) Count by simp
  show ?thesis using assms(2) sum_list_without [OF i]
    by (simp add: s' count_received_def in_flight_def errors_logged_def)
next
  case (Blpop w)
  then have w: "w < length (holding s)" "holding s ! w = None"
    using assms(1) by (simp_all split: if_splits)
  show ?thesis
  proof (cases "queue s")
    case Nil
    then show ?thesis using assms Blpop w by simp
  next
    case (Cons msg rest)
    then have s': "s' = s\<lparr>queue := rest, holding := (holding s)[w := Some msg]\<rparr>"
      using assms(1) Blpop w by simp
    have "length (filter (\<lambda>h. h \<noteq> None) ((holding s)[w := Some msg]))
            = Suc (length (filter (\<lambda>h. h \<noteq> None) (holding s)))"
      using w by (intro filter_update_in) simp_all
    then show ?thesis using assms(2) Cons
      by (simp add: s' in_flight_def errors_logged_def)
  qed
next
  case (Insert w db_error)
  then have w: "w < length (holding s)" using assms(1) by (simp split: if_splits)
  then obtain msg where msg: "holding s ! w = Some msg"
    using assms(1) Insert by (cases "holding s ! w") simp_all
  let ?s = "s\<lparr>holding := (holding s)[w := None]\<rparr>"
  have s': "s' = process_message P db_error msg ?s"
    using assms(1) Insert w msg by simp
  have "Suc (length (filter (\<lambda>h. h \<noteq> None) ((holding s)[w := None])))
          = length (filter (\<lambda>h. h \<noteq> None) (holding s))"
    using w msg by (intro filter_update_out) simp_all
  then have fl: "int (in_flight ?s) + 1 = int (in_flight s)"
    by (simp add: in_flight_def)
  have own: "in_flight s' = in_flight ?s"
    using process_message_accounts [of P db_error msg ?s] by (simp add: s' in_flight_def)
  show ?thesis
    using assms(2) fl own process_message_accounts [of P db_error msg ?s]
    by (simp add: s' errors_logged_def)
qed


lemma run_balance:
  assumes "run P as s = Some s'"
    and "received s + sum_list (uncounted s)
           = processed_success s + duplicates_dropped s + int (errors_logged s)
             + int (length (queue s)) + int (in_flight s)"
  shows "received s' + sum_list (uncounted s')
           = processed_success s' + duplicates_dropped s' + int (errors_logged s')
             + int (length (queue s')) + int (in_flight s')"
  using assms
proof (induction as arbitrary: s)
  case Nil
  then show ?case by simp
next
  case (Cons a as)
  then obtain s1 where s1: "step P a s = Some s1" and rest: "run P as s1 = Some s'"
    by (auto split: option.splits)
  show ?case using Cons.IH [OF rest step_balance [OF s1 Cons.prems(2)]] .
qed


lemma startup_balance:
  "received startup + sum_list (uncounted startup)
     = processed_success startup + duplicates_dropped startup + int (errors_logged startup)
       + int (length (queue startup)) + int (in_flight startup)"
  by (simp add: startup_def errors_logged_def in_flight_def)

text \<open>With no request waiting to be counted, \<open>received\<close> is not behind the consumers.\<close>

lemma counters_consistent_when_counted:
  assumes "run P as startup = Some s" and "uncounted s = []"
  shows "processed_success s + duplicates_dropped s + int (errors_logged s) \<le> received s"
  using run_balance [OF assms(1) startup_balance] assms(2) by simp

text \<open>
  An insert that does not raise, of an event whose timestamp parses, leaves the pair in the
  table; no step takes a pair out of the table; and an event of another topic does not bring
  a pair in.
\<close>

lemma process_message_stores:
  "fromisoformat (timestamp ev) = Some ts \<Longrightarrow>
     conflict (events (process_message fromisoformat False ev s)) (topic ev) (event_id ev)"
  by (cases "conflict (events s) (topic ev) (event_id ev)")
    (simp_all add: process_message_new process_message_duplicate conflict_append)

lemma process_message_keeps:
  "conflict (events s) t e \<Longrightarrow> conflict (events (process_message fromisoformat f ev s)) t e"
  by (auto simp: process_message_def insert_on_conflict_do_nothing_def conflict_def
      split: option.splits)

lemma process_message_other_topic:
  assumes "topic a \<noteq> t" and "\<not> conflict (events s) t e"
  shows "\<not> conflict (events (process_message fromisoformat f a s)) t e"
  using assms
  by (auto simp: process_message_def insert_on_conflict_do_nothing_def conflict_def
      split: option.splits)

section \<open>Idempotent persistence\<close>

text \<open>
  Claim C1, as amended. Take a pair of topic and event id that the table does not hold, and
  any sequence of messages reaching the store, in any order, in which \<open>K\<close> messages (at
  least one) carry the pair, each with a timestamp that parses and an insert that meets no
  storage error. After the sequence the table holds exactly one row of the pair, and next to
  the same sequence without the \<open>K\<close> messages \<open>processed_success\<close> is greater by one and
  \<open>duplicates_dropped\<close> by \<open>K - 1\<close>. The other messages of the sequence are arbitrary. Every
  interleaving of the request handlers and the consumers whose inserts come in that
  sequence ends with that table and those two counters.
\<close>

theorem idempotent_persistence:
  assumes "\<not> conflict (events s) t e"
    and "\<forall>(ev, db_error) \<in> set ms.
           topic ev = t \<and> event_id ev = e \<longrightarrow> fromisoformat (timestamp ev) \<noteq> None \<and> \<not> db_error"
    and "K = length (filter (\<lambda>(ev, db_error). topic ev = t \<and> event_id ev = e) ms)"
    and "1 \<le> K"
  shows "length (filter (\<lambda>r. col_topic r = t \<and> col_event_id r = e)
                   (events (process_all fromisoformat ms s))) = 1
       \<and> processed_success (process_all fromisoformat ms s)
           = processed_success
               (process_all fromisoformat
                  (filter (\<lambda>(ev, db_error). \<not> (topic ev = t \<and> event_id ev = e)) ms) s) + 1
       \<and> duplicates_dropped (process_all fromisoformat ms s)
           = duplicates_dropped
               (process_all fromisoformat
                  (filter (\<lambda>(ev, db_error). \<not> (topic ev = t \<and> event_id ev = e)) ms) s)
             + (int K - 1)
       \<and> (\<forall>as s'. run fromisoformat as s = Some s' \<and> inserts fromisoformat as s = ms \<longrightarrow>
             events s' = events (process_all fromisoformat ms s)
             \<and> processed_success s' = processed_success (process_all fromisoformat ms s)
             \<and> duplicates_dropped s' = duplicates_dropped (process_all fromisoformat ms s))"
proof -
  have rel: "events s = filter (\<lambda>r. \<not> (col_topic r = t \<and> col_event_id r = e)) (events s)"
    using assms(1) by (auto simp: conflict_def filter_id_conv)
  have some: "filter (\<lambda>(ev, db_error). topic ev = t \<and> event_id ev = e) ms \<noteq> []"
    using assms(3,4) by auto
  have sequence: "length (filter (\<lambda>r. col_topic r = t \<and> col_event_id r = e)
                   (events (process_all fromisoformat ms s))) = 1
       \<and> processed_success (process_all fromisoformat ms s)
           = processed_success
               (process_all fromisoformat
                  (filter (\<lambda>(ev, db_error). \<not> (topic ev = t \<and> event_id ev = e)) ms) s) + 1
       \<and> duplicates_dropped (process_all fromisoformat ms s)
           = duplicates_dropped
               (process_all fromisoformat
                  (filter (\<lambda>(ev, db_error). \<not> (topic ev = t \<and> event_id ev = e)) ms) s)
             + (int K - 1)"
    using attempts_among_others [OF assms(2) rel] assms(1) some assms(3) by simp
  have interleaved: "\<forall>as s'. run fromisoformat as s = Some s' \<and> inserts fromisoformat as s = ms \<longrightarrow>
             events s' = events (process_all fromisoformat ms s)
             \<and> processed_success s' = processed_success (process_all fromisoformat ms s)
             \<and> duplicates_dropped s' = duplicates_dropped (process_all fromisoformat ms s)"
    using run_serialises [of fromisoformat _ s] by blast
  from sequence interleaved show ?thesis by (simp only: simp_thms)
qed

text \<open>
  An instance: one request with the same event twice and an event of another topic in
  between; three consumers take one message each and insert them in the reverse order.
\<close>

theorem idempotent_persistence_witness:
  "\<not> conflict (events startup) ''t'' ''a''
   \<and> inserts iso_seconds
        [Execute (Batch [event_t_a, event_u_a, event_t_a]) True, Count 0,
         Blpop 0, Blpop 1, Blpop 2, Insert 2 False, Insert 1 False, Insert 0 False] startup
       = [(event_t_a, False), (event_u_a, False), (event_t_a, False)]
   \<and> run iso_seconds
        [Execute (Batch [event_t_a, event_u_a, event_t_a]) True, Count 0,
         Blpop 0, Blpop 1, Blpop 2, Insert 2 False, Insert 1 False, Insert 0 False] startup
       = Some \<lparr>queue = [], events = [row_t_a, row_u_a], received = 3, processed_success = 2,
               duplicates_dropped = 1,
               logged = [Processed ''a'', Processed ''a'', Duplicate_dropped ''a''],
               holding = [None, None, None, None, None], uncounted = []\<rparr>
   \<and> length (filter (\<lambda>r. col_topic r = ''t'' \<and> col_event_id r = ''a'')
        (events (process_all iso_seconds
           [(event_t_a, False), (event_u_a, False), (event_t_a, False)] startup))) = 1
   \<and> processed_success (process_all iso_seconds
        [(event_t_a, False), (event_u_a, False), (event_t_a, False)] startup)
       = processed_success (process_all iso_seconds [(event_u_a, False)] startup) + 1
   \<and> duplicates_dropped (process_all iso_seconds
        [(event_t_a, False), (event_u_a, False), (event_t_a, False)] startup)
       = duplicates_dropped (process_all iso_seconds [(event_u_a, False)] startup) + 1"
  using idempotent_persistence [of startup "''t''" "''a''"
      "[(event_t_a, False), (event_u_a, False), (event_t_a, False)]" iso_seconds 2]
  by (simp add: startup_def conflict_def event_t_a_def event_u_a_def row_t_a_def row_u_a_def
      iso_seconds_midnight process_message_def insert_on_conflict_do_nothing_def
      pipe_execute_def events_to_process_def count_received_def eval_nat_numeral)

text \<open>
  Claim C1 as stated fails for attempts that do not reach the table. The pair of topic
  \<^verbatim>\<open>t\<close> and event id \<^verbatim>\<open>b\<close> is published twice with the timestamp \<^verbatim>\<open>yesterday\<close>: both
  requests are accepted, both messages are consumed, and the table holds no row of the pair,
  with \<open>processed_success\<close> and \<open>duplicates_dropped\<close> at zero. Published once with that
  timestamp and once with a good one, the pair has its row and \<open>processed_success\<close> is one,
  but \<open>duplicates_dropped\<close> stays at zero where \<open>K - 1\<close> is one. A single attempt whose insert
  meets a storage error stores nothing and counts nothing. And on a table that holds the
  pair, an attempt is counted as a duplicate and none as processed.
\<close>

theorem attempts_not_stored:
  "run iso_seconds
     [Execute (Single event_bad) True, Count 0, Execute (Single event_bad) True, Count 0,
      Blpop 0, Insert 0 False, Blpop 0, Insert 0 False] startup =
     Some \<lparr>queue = [], events = [], received = 2, processed_success = 0,
           duplicates_dropped = 0, logged = [DB_Error, DB_Error],
           holding = [None, None, None, None, None], uncounted = []\<rparr>
   \<and> process_all iso_seconds [(event_bad, False), (event_t_b, False)] startup =
       startup\<lparr>events := [row_t_b], processed_success := 1, logged := [DB_Error, Processed ''b'']\<rparr>
   \<and> process_all iso_seconds [(event_t_a, True)] startup = startup\<lparr>logged := [DB_Error]\<rparr>
   \<and> process_all iso_seconds [(event_t_a, False)] (startup\<lparr>events := [row_t_a]\<rparr>) =
       startup\<lparr>events := [row_t_a], duplicates_dropped := 1, logged := [Duplicate_dropped ''a'']\<rparr>"
  by (simp add: startup_def pipe_execute_def events_to_process_def event_bad_def event_t_a_def
      event_t_b_def row_t_a_def row_t_b_def process_message_def insert_on_conflict_do_nothing_def
      conflict_def count_received_def iso_seconds_yesterday iso_seconds_midnight eval_nat_numeral)

section \<open>Independence of topics\<close>

text \<open>
  Claim C2, as amended. Take two events with the same event id and different topics, each
  with a timestamp that parses and an insert that meets no storage error. After both are
  processed the table holds a row of each pair, and the two rows are distinct. The row of
  the second event is written whenever its own pair is not in the table, whatever the first
  event did: the second insert meets a row with its event id and is not suppressed, for the
  conflict is on the pair of topic and event id. When neither pair is in the table, the two
  rows are appended, \<open>processed_success\<close> grows by two and nothing is dropped as a duplicate.
\<close>

theorem key_independence:
  assumes "topic a \<noteq> topic b" and "event_id a = event_id b"
    and "fromisoformat (timestamp a) = Some ta" and "fromisoformat (timestamp b) = Some tb"
  shows "(\<exists>ra \<in> set (events (process_all fromisoformat [(a, False), (b, False)] s)).
          \<exists>rb \<in> set (events (process_all fromisoformat [(a, False), (b, False)] s)).
            ra \<noteq> rb \<and> col_topic ra = topic a \<and> col_event_id ra = event_id a
            \<and> col_topic rb = topic b \<and> col_event_id rb = event_id a)
       \<and> (\<not> conflict (events s) (topic b) (event_id b) \<longrightarrow>
            events (process_all fromisoformat [(a, False), (b, False)] s)
              = events (process_message fromisoformat False a s)
                @ [\<lparr>col_topic = topic b, col_event_id = event_id b, col_timestamp = tb,
                    col_source = source b, col_payload = payload b\<rparr>]
            \<and> processed_success (process_all fromisoformat [(a, False), (b, False)] s)
                = processed_success (process_message fromisoformat False a s) + 1
            \<and> duplicates_dropped (process_all fromisoformat [(a, False), (b, False)] s)
                = duplicates_dropped (process_message fromisoformat False a s))
       \<and> (\<not> conflict (events s) (topic a) (event_id a)
            \<and> \<not> conflict (events s) (topic b) (event_id b) \<longrightarrow>
            events (process_all fromisoformat [(a, False), (b, False)] s)
              = events s
                @ [\<lparr>col_topic = topic a, col_event_id = event_id a, col_timestamp = ta,
                    col_source = source a, col_payload = payload a\<rparr>,
                   \<lparr>col_topic = topic b, col_event_id = event_id b, col_timestamp = tb,
                    col_source = source b, col_payload = payload b\<rparr>]
            \<and> processed_success (process_all fromisoformat [(a, False), (b, False)] s)
                = processed_success s + 2
            \<and> duplicates_dropped (process_all fromisoformat [(a, False), (b, False)] s)
                = duplicates_dropped s)"
proof -
  let ?s1 = "process_message fromisoformat False a s"
  let ?s2 = "process_message fromisoformat False b ?s1"
  have all: "process_all fromisoformat [(a, False), (b, False)] s = ?s2" by simp
  have a_stored: "conflict (events ?s2) (topic a) (event_id a)"
    using process_message_stores [of fromisoformat a ta s, OF assms(3)]
    by (rule process_message_keeps)
  have b_stored: "conflict (events ?s2) (topic b) (event_id b)"
    using process_message_stores [of fromisoformat b tb ?s1, OF assms(4)] .
  have both: "\<exists>ra \<in> set (events ?s2). \<exists>rb \<in> set (events ?s2).
            ra \<noteq> rb \<and> col_topic ra = topic a \<and> col_event_id ra = event_id a
            \<and> col_topic rb = topic b \<and> col_event_id rb = event_id a"
  proof -
    obtain ra where ra: "ra \<in> set (events ?s2)" "col_topic ra = topic a" "col_event_id ra = event_id a"
      using a_stored by (auto simp: conflict_def)
    obtain rb where rb: "rb \<in> set (events ?s2)" "col_topic rb = topic b" "col_event_id rb = event_id b"
      using b_stored by (auto simp: conflict_def)
    have "ra \<noteq> rb" using ra(2) rb(2) assms(1) by auto
    then show ?thesis using ra rb assms(2) by auto
  qed
  have second: "events ?s2
              = events ?s1
                @ [\<lparr>col_topic = topic b, col_event_id = event_id b, col_timestamp = tb,
                    col_source = source b, col_payload = payload b\<rparr>]
            \<and> processed_success ?s2 = processed_success ?s1 + 1
            \<and> duplicates_dropped ?s2 = duplicates_dropped ?s1"
    if free: "\<not> conflict (events s) (topic b) (event_id b)"
  proof -
    have free1: "\<not> conflict (events ?s1) (topic b) (event_id b)"
      using assms(1) free by (rule process_message_other_topic)
    have "?s2 =
      ?s1\<lparr>events := events ?s1 @ [\<lparr>col_topic = topic b, col_event_id = event_id b,
                                  col_timestamp = tb, col_source = source b,
                                  col_payload = payload b\<rparr>],
         processed_success := processed_success ?s1 + 1,
         logged := logged ?s1 @ [Processed (event_id b)]\<rparr>"
      using assms(4) free1 by (rule process_message_new)
    then show ?thesis by simp
  qed
  have fresh: "events ?s2
              = events s
                @ [\<lparr>col_topic = topic a, col_event_id = event_id a, col_timestamp = ta,
                    col_source = source a, col_payload = payload a\<rparr>,
                   \<lparr>col_topic = topic b, col_event_id = event_id b, col_timestamp = tb,
                    col_source = source b, col_payload = payload b\<rparr>]
            \<and> processed_success ?s2 = processed_success s + 2
            \<and> duplicates_dropped ?s2 = duplicates_dropped s"
    if fa: "\<not> conflict (events s) (topic a) (event_id a)"
      and fb: "\<not> conflict (events s) (topic b) (event_id b)"
  proof -
    have first: "?s1 = s\<lparr>events := events s @ [\<lparr>col_topic = topic a, col_event_id = event_id a,
                                  col_timestamp = ta, col_source = source a,
                                  col_payload = payload a\<rparr>],
         processed_success := processed_success s + 1,
         logged := logged s @ [Processed (event_id a)]\<rparr>"
      using assms(3) fa by (rule process_message_new)
    show ?thesis using second [OF fb] by (simp add: first)
  qed
  show ?thesis unfolding all using both second fresh by blast
qed

text \<open>An instance: the event id \<^verbatim>\<open>a\<close> on the topics \<^verbatim>\<open>t\<close> and \<^verbatim>\<open>u\<close>.\<close>

theorem key_independence_witness:
  "topic event_t_a \<noteq> topic event_u_a \<and> event_id event_t_a = event_id event_u_a
   \<and> events (process_all iso_seconds [(event_t_a, False), (event_u_a, False)] startup)
       = [row_t_a, row_u_a]
   \<and> processed_success (process_all iso_seconds [(event_t_a, False), (event_u_a, False)] startup) = 2
   \<and> duplicates_dropped (process_all iso_seconds [(event_t_a, False), (event_u_a, False)] startup) = 0"
  using key_independence [of event_t_a event_u_a iso_seconds 65052979200 65052979200 startup]
  by (simp add: startup_def conflict_def event_t_a_def event_u_a_def row_t_a_def row_u_a_def
      iso_seconds_midnight process_message_def insert_on_conflict_do_nothing_def)

text \<open>
  Claim C2 as stated fails for events that do not reach the table. The event id \<^verbatim>\<open>b\<close> on
  the topics \<^verbatim>\<open>t\<close> and \<^verbatim>\<open>u\<close>, both with the timestamp \<^verbatim>\<open>yesterday\<close>: the two messages are
  consumed, each logs an error, and the table stays empty. With good timestamps and a
  storage error on the second insert, only the first event is stored.
\<close>

theorem same_id_not_stored:
  "topic event_bad \<noteq> topic event_bad_u \<and> event_id event_bad = event_id event_bad_u
   \<and> process_all iso_seconds [(event_bad, False), (event_bad_u, False)] startup =
       startup\<lparr>logged := [DB_Error, DB_Error]\<rparr>
   \<and> events (process_all iso_seconds [(event_bad, False), (event_bad_u, False)] startup) = []
   \<and> events (process_all iso_seconds [(event_t_a, False), (event_u_a, True)] startup) = [row_t_a]"
  by (simp add: startup_def event_bad_def event_bad_u_def event_t_a_def event_u_a_def row_t_a_def
      process_message_def insert_on_conflict_do_nothing_def conflict_def
      iso_seconds_yesterday iso_seconds_midnight)

section \<open>Consistency of the counters\<close>

text \<open>
  Claim C3 says that \<open>received\<close> is at least \<open>processed_success + duplicates_dropped\<close> at
  every point of every interleaving. The handler adds to \<open>received\<close> after
  \<^verbatim>\<open>await pipe.execute()\<close>, so a consumer can take the pushed message and count it while
  the handler is still suspended: in this run one request of one event is pushed, consumer 0
  pops and inserts it, and the handler has not resumed. \<open>received\<close> is 0 and
  \<open>processed_success\<close> is 1.
\<close>

theorem received_behind_consumers:
  "run iso_seconds [Execute (Single event_t_a) True, Blpop 0, Insert 0 False] startup =
     Some \<lparr>queue = [], events = [row_t_a], received = 0, processed_success = 1,
           duplicates_dropped = 0, logged = [Processed ''a''],
           holding = [None, None, None, None, None], uncounted = [1]\<rparr>
   \<and> received (the (run iso_seconds [Execute (Single event_t_a) True, Blpop 0, Insert 0 False]
                      startup))
       < processed_success (the (run iso_seconds
                                  [Execute (Single event_t_a) True, Blpop 0, Insert 0 False] startup))
         + duplicates_dropped (the (run iso_seconds
                                  [Execute (Single event_t_a) True, Blpop 0, Insert 0 False] startup))"
  by (simp add: startup_def pipe_execute_def events_to_process_def event_t_a_def row_t_a_def
      process_message_def insert_on_conflict_do_nothing_def conflict_def iso_seconds_midnight
      eval_nat_numeral)

section \<open>A storage error in the consumer\<close>



section \<open>Acceptance of a request\<close>

text \<open>
  Claim C5. For a request with the batch \<open>es\<close>, when the queue takes the push,
  \<^verbatim>\<open>publish_event\<close> appends the events of \<open>es\<close> to the queue, all of them and in their order,
  adds the length of \<open>es\<close> to \<open>received\<close> and answers 200 with status \<^verbatim>\<open>queued\<close> and that
  length as count; a single event is a batch of one. When the push raises, it answers 500
  and leaves the state as it was, \<open>received\<close> included. The counter moves after the push:
  the handler's run up to \<^verbatim>\<open>pipe.execute()\<close> appends the events and leaves \<open>received\<close> alone
  (a push that raises ends the request there), and its resumption adds the length of \<open>es\<close>.
\<close>

theorem publish_event_counts:
  "publish_event True (Batch es) s =
     (OK_200 ''queued'' (int (length es)),
      s\<lparr>queue := queue s @ es, received := received s + int (length es)\<rparr>)
   \<and> publish_event True (Single e) s =
       (OK_200 ''queued'' 1, s\<lparr>queue := queue s @ [e], received := received s + 1\<rparr>)
   \<and> publish_event False (Batch es) s = (HTTPException 500, s)
   \<and> publish_event False (Single e) s = (HTTPException 500, s)
   \<and> step fromisoformat (Execute (Batch es) True) s =
       Some (s\<lparr>queue := queue s @ es, uncounted := uncounted s @ [int (length es)]\<rparr>)
   \<and> step fromisoformat (Execute (Batch es) False) s = Some s
   \<and> run fromisoformat [Execute (Batch es) True, Count (length (uncounted s))] s =
       Some (s\<lparr>queue := queue s @ es, received := received s + int (length es)\<rparr>)"
  by (simp add: publish_event_def pipe_execute_def count_received_def events_to_process_def)

section \<open>Listing events\<close>

lemma newest_first:
  "sorted_wrt (\<lambda>a b. col_timestamp b \<le> col_timestamp a) (sort_key (\<lambda>r. - col_timestamp r) rows)"
proof -
  have "sorted (map (\<lambda>r. - col_timestamp r) (sort_key (\<lambda>r. - col_timestamp r) rows))"
    by (rule sorted_sort_key)
  then show ?thesis by (simp add: sorted_map)
qed

lemma get_events_sorted:
  "sorted_wrt (\<lambda>a b. col_timestamp b \<le> col_timestamp a) (get_events topic' rows)"
  unfolding get_events_def by (rule sorted_wrt_take) (rule newest_first)

lemma get_events_subset: "set (get_events topic' rows) \<subseteq> set rows"
proof -
  have "set (get_events topic' rows)
          \<subseteq> set (case topic' of None \<Rightarrow> rows
                  | Some t \<Rightarrow> if t = [] then rows else filter (\<lambda>r. col_topic r = t) rows)"
    unfolding get_events_def using set_take_subset [of 50] by fastforce
  also have "\<dots> \<subseteq> set rows" by (auto split: option.splits)
  finally show ?thesis .
qed

lemma get_events_topic:
  assumes "t \<noteq> []" and "r \<in> set (get_events (Some t) rows)"
  shows "col_topic r = t"
proof -
  have "r \<in> set (sort_key (\<lambda>r. - col_timestamp r) (filter (\<lambda>r. col_topic r = t) rows))"
    using assms by (auto simp: get_events_def dest: in_set_takeD)
  then show ?thesis by simp
qed

text \<open>
  Claim C6, as amended. For a topic that is not the empty string, \<^verbatim>\<open>get_events\<close> returns
  only rows of that topic, and all of them when there are at most 50. The empty string is
  treated as no topic at all. In every case the result is made of stored rows, is ordered by
  timestamp from newest to oldest, and has at most 50 rows.
\<close>

theorem get_events_filtered_newest_first:
  "(t \<noteq> [] \<longrightarrow> (\<forall>r \<in> set (get_events (Some t) rows). col_topic r = t))
   \<and> (t \<noteq> [] \<and> length (filter (\<lambda>r. col_topic r = t) rows) \<le> 50 \<longrightarrow>
        set (get_events (Some t) rows) = {r \<in> set rows. col_topic r = t})
   \<and> get_events (Some []) rows = get_events None rows
   \<and> set (get_events topic' rows) \<subseteq> set rows
   \<and> sorted_wrt (\<lambda>a b. col_timestamp b \<le> col_timestamp a) (get_events topic' rows)
   \<and> length (get_events topic' rows) \<le> 50"
proof -
  have full: "t \<noteq> [] \<and> length (filter (\<lambda>r. col_topic r = t) rows) \<le> 50 \<longrightarrow>
        set (get_events (Some t) rows) = {r \<in> set rows. col_topic r = t}"
    by (auto simp: get_events_def)
  have same: "get_events (Some []) rows = get_events None rows"
    by (simp add: get_events_def)
  have short: "length (get_events topic' rows) \<le> 50"
    by (simp add: get_events_def)
  show ?thesis
    using full same short get_events_topic [of t _ rows] get_events_subset [of topic' rows]
      get_events_sorted [of topic' rows]
    by blast
qed

text \<open>An instance: two stored rows on two topics, listed for the topic of the first.\<close>

theorem get_events_filtered_newest_first_witness:
  "''t'' \<noteq> [] \<and> length (filter (\<lambda>r. col_topic r = ''t'') [row_t_a, row_u_a]) \<le> 50
   \<and> get_events (Some ''t'') [row_t_a, row_u_a] = [row_t_a]
   \<and> set (get_events (Some ''t'') [row_t_a, row_u_a]) = {r \<in> set [row_t_a, row_u_a]. col_topic r = ''t''}"
  using get_events_filtered_newest_first [of "''t''" "[row_t_a, row_u_a]" "Some ''t''"]
  by (simp add: get_events_def row_t_a_def row_u_a_def)

text \<open>
  Claim C6 as stated fails for the empty topic: the store holds one row, of topic \<^verbatim>\<open>t\<close>, and
  listing the topic \<^verbatim>\<open>""\<close> returns it.
\<close>

theorem get_events_empty_topic_unfiltered:
  "get_events (Some []) [row_t_a] = [row_t_a] \<and> col_topic row_t_a \<noteq> []"
  by (simp add: get_events_def row_t_a_def)

section \<open>Start of the process\<close>

lemma connect_sleeps: "sleeps (connect env n i a) \<le> sleeps a + n"
proof (induction n arbitrary: i a)
  case 0
  then show ?case by simp
next
  case (Suc n)
  show ?case
  proof (cases "env i")
    case Pool_error
    then show ?thesis using Suc.IH [of "Suc i" "a\<lparr>sleeps := sleeps a + 1\<rparr>"] by simp
  next
    case Broker_error
    then show ?thesis
      using Suc.IH [of "Suc i" "a\<lparr>db_pool := Some i, sleeps := sleeps a + 1\<rparr>"] by simp
  next
    case Init_db_error
    then show ?thesis
      using Suc.IH [of "Suc i"
          "a\<lparr>db_pool := Some i, redis_client := Some i, sleeps := sleeps a + 1\<rparr>"]
      by simp
  next
    case Connected
    then show ?thesis by simp
  qed
qed

lemma connect_failed:
  "(\<forall>j. i \<le> j \<and> j < i + n \<longrightarrow> env j \<noteq> Connected) \<Longrightarrow> sleeps (connect env n i a) = sleeps a + n"
proof (induction n arbitrary: i a)
  case 0
  then show ?case by simp
next
  case (Suc n)
  have here: "env i \<noteq> Connected" using Suc.prems by simp
  have rest: "\<forall>j. Suc i \<le> j \<and> j < Suc i + n \<longrightarrow> env j \<noteq> Connected" using Suc.prems by simp
  show ?case using here Suc.IH [OF rest] by (cases "env i") simp_all
qed

lemma connect_pool_errors:
  "(\<forall>j. i \<le> j \<and> j < i + n \<longrightarrow> env j = Pool_error) \<Longrightarrow>
     db_pool (connect env n i a) = db_pool a \<and> redis_client (connect env n i a) = redis_client a"
proof (induction n arbitrary: i a)
  case 0
  then show ?case by simp
next
  case (Suc n)
  have here: "env i = Pool_error" using Suc.prems by simp
  have rest: "\<forall>j. Suc i \<le> j \<and> j < Suc i + n \<longrightarrow> env j = Pool_error" using Suc.prems by simp
  show ?case using here Suc.IH [OF rest] by simp
qed

text \<open>
  Claim C7, as amended. The start of the process tries to connect at most five times and
  sleeps two seconds after each pass that raised. It never fails: whatever the passes did,
  the five consumers are started and the application goes on to serve. After five passes
  that raised it has slept five times, and when every pass failed to create the pool both
  handles are still unset.
\<close>

theorem startup_never_fatal:
  "serving (lifespan_startup env) \<and> consumers (lifespan_startup env) = 5
   \<and> sleeps (lifespan_startup env) \<le> 5
   \<and> ((\<forall>i < 5. env i \<noteq> Connected) \<longrightarrow> sleeps (lifespan_startup env) = 5)
   \<and> ((\<forall>i < 5. env i = Pool_error) \<longrightarrow>
        db_pool (lifespan_startup env) = None \<and> redis_client (lifespan_startup env) = None)"
proof -
  have a: "sleeps (lifespan_startup env) \<le> 5"
    using connect_sleeps [of env 5 0
        "\<lparr>db_pool = None, redis_client = None, sleeps = 0, consumers = 0, serving = False\<rparr>"]
    by (simp add: lifespan_startup_def)
  have b: "(\<forall>i < 5. env i \<noteq> Connected) \<longrightarrow> sleeps (lifespan_startup env) = 5"
    using connect_failed [of 0 5 env
        "\<lparr>db_pool = None, redis_client = None, sleeps = 0, consumers = 0, serving = False\<rparr>"]
    by (simp add: lifespan_startup_def)
  have c: "(\<forall>i < 5. env i = Pool_error) \<longrightarrow>
        db_pool (lifespan_startup env) = None \<and> redis_client (lifespan_startup env) = None"
    using connect_pool_errors [of 0 5 env
        "\<lparr>db_pool = None, redis_client = None, sleeps = 0, consumers = 0, serving = False\<rparr>"]
    by (simp add: lifespan_startup_def)
  show ?thesis using a b c by (simp add: lifespan_startup_def)
qed

text \<open>An instance: the store cannot be reached in any of the five passes.\<close>

theorem startup_never_fatal_witness:
  "serving (lifespan_startup (\<lambda>i. Pool_error))
   \<and> consumers (lifespan_startup (\<lambda>i. Pool_error)) = 5
   \<and> sleeps (lifespan_startup (\<lambda>i. Pool_error)) = 5
   \<and> db_pool (lifespan_startup (\<lambda>i. Pool_error)) = None
   \<and> redis_client (lifespan_startup (\<lambda>i. Pool_error)) = None"
  using startup_never_fatal [of "\<lambda>i. Pool_error"] by simp

text \<open>
  Claim C7 as stated fails: with the store unreachable in all five passes the start does not
  end in an error; the consumers run and the application serves with both handles unset.
\<close>

theorem startup_exhausted_still_serves:
  "lifespan_startup (\<lambda>i. Pool_error) =
     \<lparr>db_pool = None, redis_client = None, sleeps = 5, consumers = 5, serving = True\<rparr>"
  by (simp add: lifespan_startup_def eval_nat_numeral)

text \<open>
  When a pass connects, the loop ends there: the start has slept once for each pass before
  it, that is once after each pass that raised, and both handles are those of that pass.
\<close>

lemma connect_first_success:
  "(\<forall>j. i \<le> j \<and> j < i + k \<longrightarrow> env j \<noteq> Connected) \<Longrightarrow> env (i + k) = Connected \<Longrightarrow> k < n \<Longrightarrow>
     sleeps (connect env n i a) = sleeps a + k
     \<and> db_pool (connect env n i a) = Some (i + k)
     \<and> redis_client (connect env n i a) = Some (i + k)"
proof (induction n arbitrary: i k a)
  case 0
  then show ?case by simp
next
  case (Suc n)
  show ?case
  proof (cases k)
    case 0
    then show ?thesis using Suc.prems by simp
  next
    case (Suc k')
    have here: "env i \<noteq> Connected" using Suc.prems(1) Suc by simp
    have rest: "\<forall>j. Suc i \<le> j \<and> j < Suc i + k' \<longrightarrow> env j \<noteq> Connected"
      using Suc.prems(1) Suc by simp
    have hit: "env (Suc i + k') = Connected" using Suc.prems(2) Suc by simp
    have less: "k' < n" using Suc.prems(3) Suc by simp
    note ih = Suc.IH [OF rest hit less]
    show ?thesis using here ih Suc by (cases "env i") simp_all
  qed
qed

lemma startup_connects_at:
  assumes "k < 5" and "env k = Connected" and "\<forall>j < k. env j \<noteq> Connected"
  shows "lifespan_startup env =
           \<lparr>db_pool = Some k, redis_client = Some k, sleeps = k, consumers = 5, serving = True\<rparr>"
proof -
  let ?a = "\<lparr>db_pool = None, redis_client = None, sleeps = 0, consumers = 0, serving = False\<rparr>"
  have none: "\<forall>j. 0 \<le> j \<and> j < 0 + k \<longrightarrow> env j \<noteq> Connected" using assms(3) by simp
  have hit: "env (0 + k) = Connected" using assms(2) by simp
  have "sleeps (connect env 5 0 ?a) = sleeps ?a + k
     \<and> db_pool (connect env 5 0 ?a) = Some (0 + k)
     \<and> redis_client (connect env 5 0 ?a) = Some (0 + k)"
    using none hit assms(1) by (rule connect_first_success)
  then show ?thesis by (simp add: lifespan_startup_def)
qed

section \<open>Uptime\<close>

lemma decimal_nonempty: "decimal n \<noteq> []"
  by (subst decimal.simps) simp

lemma digit_char_digit: "d < 10 \<Longrightarrow> digit_char d \<in> set ''0123456789''"
proof -
  assume "d < 10"
  then have "d \<in> {0, 1, 2, 3, 4, 5, 6, 7, 8, 9}" by auto
  then show ?thesis by (auto simp: digit_char_def)
qed

lemma decimal_digits: "set (decimal n) \<subseteq> set ''0123456789''"
proof (induction n rule: decimal.induct)
  case (1 n)
  show ?case
  proof (cases "n < 10")
    case True
    then show ?thesis using digit_char_digit [of n] by (subst decimal.simps) simp
  next
    case False
    have "n mod 10 < 10" by simp
    then have "digit_char (n mod 10) \<in> set ''0123456789''" by (rule digit_char_digit)
    then show ?thesis using False "1.IH" by (subst decimal.simps) simp
  qed
qed

lemma decimal_small: "n < 10 \<Longrightarrow> length (decimal n) = 1"
  by (subst decimal.simps) simp

lemma decimal_two: "10 \<le> n \<Longrightarrow> n < 100 \<Longrightarrow> length (decimal n) = 2"
proof -
  assume a: "10 \<le> n" "n < 100"
  then have "n div 10 < 10" by simp
  then have "length (decimal (n div 10)) = 1" by (rule decimal_small)
  then show ?thesis using a by (subst decimal.simps) simp
qed

lemma all_digits_iff: "all_digits f \<longleftrightarrow> set f \<subseteq> set ''0123456789''"
  unfolding all_digits_def list_all_iff by blast

lemma all_digits_decimal: "all_digits (decimal n)"
  unfolding all_digits_iff by (rule decimal_digits)

lemma format_d_digits: "0 \<le> n \<Longrightarrow> all_digits (format_d n) \<and> format_d n \<noteq> []"
  by (simp add: format_d_def all_digits_decimal decimal_nonempty)

lemma all_digits_zero: "all_digits (CHR ''0'' # f) = all_digits f"
  by (simp add: all_digits_def)

lemma format_02d_digits:
  assumes "0 \<le> n" "n < 100"
  shows "all_digits (format_02d n) \<and> length (format_02d n) = 2"
proof (cases "n < 10")
  case True
  then have "length (decimal (nat n)) = 1" using assms by (intro decimal_small) simp
  then show ?thesis using True assms
    by (simp add: format_02d_def format_d_def all_digits_zero all_digits_decimal)
next
  case False
  then have "length (decimal (nat n)) = 2" using assms by (intro decimal_two) simp_all
  then show ?thesis using False assms
    by (simp add: format_02d_def format_d_def all_digits_decimal)
qed

lemma split_colon_nonempty: "split_colon s \<noteq> []"
  by (induction s) (auto split: list.splits)

lemma digits_no_colon: "all_digits f \<Longrightarrow> CHR '':'' \<notin> set f"
proof
  assume "all_digits f" and "CHR '':'' \<in> set f"
  then have "CHR '':'' \<in> set ''0123456789''" unfolding all_digits_iff by blast
  then show False by simp
qed

lemma split_colon_field: "CHR '':'' \<notin> set f \<Longrightarrow> split_colon f = [f]"
  by (induction f) (auto split: list.splits)

lemma split_colon_append:
  "CHR '':'' \<notin> set f \<Longrightarrow> split_colon (f @ CHR '':'' # rest) = f # split_colon rest"
  by (induction f) (auto split: list.splits simp: split_colon_nonempty)

lemma h_mm_ss_fields:
  assumes "all_digits h" "h \<noteq> []" "all_digits m" "length m = 2" "all_digits c" "length c = 2"
  shows "h_mm_ss (h @ [CHR '':''] @ m @ [CHR '':''] @ c)"
proof -
  have "split_colon (h @ [CHR '':''] @ m @ [CHR '':''] @ c) = [h, m, c]"
    using assms by (simp add: split_colon_append split_colon_field digits_no_colon)
  then show ?thesis using assms by (simp add: h_mm_ss_def)
qed

lemma uptime_str_under_a_day:
  assumes "0 \<le> n" "n < 86400"
  shows "uptime_str n =
           Some (format_d (n div 3600) @ [CHR '':''] @ format_02d (n div 60 mod 60) @ [CHR '':'']
                   @ format_02d (n mod 60))"
proof -
  have d: "n div 86400 = 0" "n mod 86400 = n" using assms by simp_all
  have hh: "n div 60 div 60 = n div 3600" by (simp add: div_mult2_eq [symmetric])
  show ?thesis by (simp add: uptime_str_def timedelta_str_def Let_def d hh)
qed

text \<open>
  Claim C8, as amended. For an uptime of less than a day (0 to 86399 seconds) the uptime
  that \<^verbatim>\<open>get_stats\<close> returns is the hours without padding, the minutes and the seconds on
  two digits each, separated by colons, which is the shape \<^verbatim>\<open>H:MM:SS\<close>.
\<close>

theorem uptime_under_a_day:
  assumes "0 \<le> n" "n < 86400"
  shows "map_option uptime (get_stats n s) =
           Some (format_d (n div 3600) @ [CHR '':''] @ format_02d (n div 60 mod 60) @ [CHR '':'']
                   @ format_02d (n mod 60))
       \<and> h_mm_ss (uptime (the (get_stats n s)))"
proof -
  note eq = uptime_str_under_a_day [OF assms]
  have h: "all_digits (format_d (n div 3600)) \<and> format_d (n div 3600) \<noteq> []"
    using assms by (intro format_d_digits) simp
  have m: "all_digits (format_02d (n div 60 mod 60)) \<and> length (format_02d (n div 60 mod 60)) = 2"
    by (intro format_02d_digits) simp_all
  have c: "all_digits (format_02d (n mod 60)) \<and> length (format_02d (n mod 60)) = 2"
    by (intro format_02d_digits) simp_all
  have "h_mm_ss (format_d (n div 3600) @ [CHR '':''] @ format_02d (n div 60 mod 60) @ [CHR '':'']
                   @ format_02d (n mod 60))"
    using h m c by (intro h_mm_ss_fields) simp_all
  then show ?thesis by (simp add: get_stats_def eq)
qed

text \<open>An instance: one hour, one minute and one second after the start.\<close>

theorem uptime_under_a_day_witness:
  "(0::int) \<le> 3661 \<and> (3661::int) < 86400
   \<and> map_option uptime (get_stats 3661 startup) = Some ''1:01:01''
   \<and> h_mm_ss ''1:01:01''"
proof -
  have a: "(0::int) \<le> 3661" and b: "(3661::int) < 86400" by simp_all
  have c: "map_option uptime (get_stats 3661 startup) = Some ''1:01:01''"
    by (simp add: get_stats_def uptime_str_def timedelta_str_def Let_def format_02d_def
        format_d_small digit_char_def)
  then have u: "uptime (the (get_stats 3661 startup)) = ''1:01:01''"
    by (cases "get_stats 3661 startup") simp_all
  have "h_mm_ss (uptime (the (get_stats 3661 startup)))"
    using uptime_under_a_day [OF a b, of startup] by (rule conjunct2)
  then have "h_mm_ss ''1:01:01''" by (simp add: u)
  then show ?thesis using c by simp
qed

text \<open>
  Claim C8 as stated fails from one day on: after 86400 seconds the string starts with the
  number of days, and its first colon-separated field is not made of digits.
\<close>

theorem uptime_one_day_not_h_mm_ss:
  "map_option uptime (get_stats 86400 startup) = Some ''1 day, 0:00:00''
   \<and> \<not> h_mm_ss ''1 day, 0:00:00''"
  by (simp add: get_stats_def uptime_str_def timedelta_str_def Let_def format_02d_def
      format_d_small digit_char_def h_mm_ss_def all_digits_def)

text \<open>
  From one day on, for every uptime that \<^verbatim>\<open>timedelta\<close> can hold: the string is the number
  of days, \<^verbatim>\<open>day\<close> or \<^verbatim>\<open>days\<close>, a comma, and the time of the day as before; it never has the
  shape \<^verbatim>\<open>H:MM:SS\<close>, its first field holding a space.
\<close>

lemma space_not_digit: "CHR '' '' \<in> set f \<Longrightarrow> \<not> all_digits f"
proof
  assume "CHR '' '' \<in> set f" and "all_digits f"
  then have "CHR '' '' \<in> set ''0123456789''" unfolding all_digits_iff by blast
  then show False by simp
qed

lemma uptime_str_from_a_day:
  assumes "86400 \<le> n" "n div 86400 \<le> 999999999"
  shows "uptime_str n =
           Some (format_d (n div 86400) @ '' day'' @ (if n div 86400 = 1 then [] else ''s'')
                   @ '', '' @ format_d (n mod 86400 div 3600) @ [CHR '':'']
                   @ format_02d (n mod 86400 div 60 mod 60) @ [CHR '':''] @ format_02d (n mod 60))"
proof -
  have d: "1 \<le> n div 86400" using assms(1) by simp
  have hh: "n mod 86400 div 60 div 60 = n mod 86400 div 3600" by (simp add: div_mult2_eq [symmetric])
  have "(86400::int) = 60 * 1440" by simp
  then have ss: "n mod 86400 mod 60 = n mod 60" by (metis mod_mod_cancel dvd_triv_left)
  show ?thesis using d assms(2) by (simp add: uptime_str_def timedelta_str_def Let_def hh ss)
qed

lemma uptime_from_a_day:
  assumes "86400 \<le> n" "n div 86400 \<le> 999999999"
  shows "map_option uptime (get_stats n s) =
           Some (format_d (n div 86400) @ '' day'' @ (if n div 86400 = 1 then [] else ''s'')
                   @ '', '' @ format_d (n mod 86400 div 3600) @ [CHR '':'']
                   @ format_02d (n mod 86400 div 60 mod 60) @ [CHR '':''] @ format_02d (n mod 60))
       \<and> \<not> h_mm_ss (uptime (the (get_stats n s)))"
proof -
  note eq = uptime_str_from_a_day [OF assms]
  let ?f = "format_d (n div 86400) @ '' day'' @ (if n div 86400 = 1 then [] else ''s'')
              @ '', '' @ format_d (n mod 86400 div 3600)"
  let ?m = "format_02d (n mod 86400 div 60 mod 60)"
  let ?c = "format_02d (n mod 60)"
  have m: "all_digits ?m \<and> length ?m = 2" by (intro format_02d_digits) simp_all
  have c: "all_digits ?c \<and> length ?c = 2" by (intro format_02d_digits) simp_all
  have d: "all_digits (format_d (n div 86400))" using assms(1) format_d_digits [of "n div 86400"] by simp
  have h: "all_digits (format_d (n mod 86400 div 3600))"
    using format_d_digits [of "n mod 86400 div 3600"] by simp
  have no: "CHR '':'' \<notin> set ?f" using digits_no_colon [OF d] digits_no_colon [OF h] by simp
  have sp: "CHR '' '' \<in> set ?f" by simp
  have "split_colon (?f @ CHR '':'' # ?m @ CHR '':'' # ?c) = ?f # split_colon (?m @ CHR '':'' # ?c)"
    using no by (rule split_colon_append)
  also have "split_colon (?m @ CHR '':'' # ?c) = [?m, ?c]"
    using m c by (simp add: split_colon_append split_colon_field digits_no_colon)
  finally have fields: "split_colon (?f @ CHR '':'' # ?m @ CHR '':'' # ?c) = [?f, ?m, ?c]" .
  have "\<not> h_mm_ss (?f @ CHR '':'' # ?m @ CHR '':'' # ?c)"
    unfolding h_mm_ss_def fields using space_not_digit [OF sp] by simp
  then show ?thesis by (simp add: get_stats_def eq)
qed

section \<open>The empty batch\<close>

text \<open>
  Claim C9. A request whose body is the empty array, with a pipeline that does not raise,
  is answered 200 with status \<^verbatim>\<open>queued\<close> and count 0; nothing is appended to the queue and
  \<open>received\<close> keeps its value.
\<close>

theorem publish_empty_batch: "publish_event True (Batch []) s = (OK_200 ''queued'' 0, s)"
  by (simp add: publish_event_def pipe_execute_def count_received_def events_to_process_def)

section \<open>An event whose timestamp does not parse\<close>




end
